theory Spec2Isabelle
  imports Main "HOL-Library.AList"
begin

section \<open>Data model of bpe.py\<close>

text \<open>
  Token ids are Python integers. A Python \<open>str\<close> is modelled by the list of its code
  points (natural numbers below \<open>0x110000\<close>), so \<open>ord\<close> is the embedding of a code
  point into the integers and \<open>chr\<close> fails with \<open>ValueError\<close> outside that range.
\<close>

type_synonym TokenId = int

type_synonym pystr = "nat list"

datatype error = KeyError | IndexError | ValueError

definition py_ord :: "nat \<Rightarrow> int" where
  "py_ord c = int c"

definition py_chr :: "int \<Rightarrow> error + nat" where
  "py_chr i = (if 0 \<le> i \<and> i < 0x110000 then Inr (nat i) else Inl ValueError)"

text \<open>The frozen dataclass \<open>Pair\<close>: two token ids, compared by value.\<close>

datatype pair = Pair_of (left: TokenId) (right: TokenId)

text \<open>A value of the token map is \<open>Pair | TokenId\<close>; \<open>isinstance\<close> tells them apart.\<close>

datatype entry = Node pair | Leaf TokenId

text \<open>
  Python dictionaries iterate in insertion order, and both \<open>create_or_get_pair\<close> and
  \<open>most_common\<close> depend on that order, so \<open>dict\<close> and \<open>Counter\<close> are association
  lists in insertion order. \<open>AList.update k v\<close> overwrites the value of an existing key in
  place and appends a new key at the end, as \<open>d[k] = v\<close> does.
\<close>

type_synonym TokenMap = "(TokenId \<times> entry) list"

type_synonym Frequencies = "(pair \<times> int) list"

record State =
  tokens :: "TokenId list"
  frequencies :: Frequencies
  token_map :: TokenMap

section \<open>Counter operations\<close>

text \<open>Reading a missing key of a \<open>Counter\<close> gives 0 and does not insert the key.\<close>

definition counter_get :: "Frequencies \<Rightarrow> pair \<Rightarrow> int" where
  "counter_get fr p = (case map_of fr p of None \<Rightarrow> 0 | Some c \<Rightarrow> c)"

text \<open>\<open>fr[p] += d\<close>: read (0 when missing), then store.\<close>

definition counter_add :: "Frequencies \<Rightarrow> pair \<Rightarrow> int \<Rightarrow> Frequencies" where
  "counter_add fr p d = AList.update p (counter_get fr p + d) fr"

text \<open>\<open>Counter(iterable)\<close>: every element is counted once, in order.\<close>

definition Counter_of :: "pair list \<Rightarrow> Frequencies" where
  "Counter_of ps = foldl (\<lambda>fr p. counter_add fr p 1) [] ps"

text \<open>\<open>itertools.pairwise\<close>.\<close>

definition pairwise_list :: "'a list \<Rightarrow> ('a \<times> 'a) list" where
  "pairwise_list xs = zip xs (tl xs)"

text \<open>
  \<open>max(items, key=itemgetter(1))\<close>, which is what \<open>most_common(1)\<close> computes: the
  running best entry is replaced only by a strictly greater count, so the first entry
  with the greatest count wins.
\<close>

fun max_entry :: "pair \<times> int \<Rightarrow> Frequencies \<Rightarrow> pair \<times> int" where
  "max_entry best [] = best"
| "max_entry best (x # xs) = (if snd best < snd x then max_entry x xs else max_entry best xs)"

text \<open>\<open>frequencies.most_common(1)[0]\<close>: indexing the empty list raises \<open>IndexError\<close>.\<close>

definition most_used :: "Frequencies \<Rightarrow> error + (pair \<times> int)" where
  "most_used fr = (case fr of [] \<Rightarrow> Inl IndexError | x # xs \<Rightarrow> Inr (max_entry x xs))"

section \<open>The merge table\<close>

definition create_or_get_pair :: "TokenMap \<Rightarrow> pair \<Rightarrow> TokenId \<times> TokenMap" where
  "create_or_get_pair m p =
     (case find (\<lambda>(the_token, the_pair). the_pair = Node p) m of
        Some (the_token, the_pair) \<Rightarrow> (the_token, m)
      | None \<Rightarrow> (let next_id = int (length m) in (next_id, AList.update next_id (Node p) m)))"

section \<open>Initial state\<close>

definition from_text :: "pystr \<Rightarrow> State" where
  "from_text txt =
     \<lparr> tokens = map py_ord txt,
       frequencies = Counter_of (map (\<lambda>(l, r). Pair_of (py_ord l) (py_ord r)) (pairwise_list txt)),
       token_map = map (\<lambda>i. (int i, Leaf (int i))) [0..<256] \<rparr>"

section \<open>One merge step\<close>

text \<open>
  The neighbours are \<open>TokenId | None\<close> and are tested with \<open>if left_token:\<close>, which is
  false for \<open>None\<close> and for the integer 0.
\<close>

definition account_for_substitution ::
  "Frequencies \<Rightarrow> TokenId option \<Rightarrow> pair \<Rightarrow> TokenId option \<Rightarrow> TokenId \<Rightarrow> Frequencies" where
  "account_for_substitution fr left_token the_pair right_token new_token =
     (let fr1 = (case left_token of
                   None \<Rightarrow> fr
                 | Some l \<Rightarrow>
                     if l \<noteq> 0
                     then counter_add (counter_add fr (Pair_of l (left the_pair)) (- 1))
                            (Pair_of l new_token) 1
                     else fr);
          fr2 = (case right_token of
                   None \<Rightarrow> fr1
                 | Some r \<Rightarrow>
                     if r \<noteq> 0
                     then counter_add (counter_add fr1 (Pair_of (right the_pair) r) (- 1))
                            (Pair_of new_token r) 1
                     else fr1)
      in counter_add fr2 the_pair (- 1))"

text \<open>
  The \<open>while old_idx < len(state.tokens)\<close> loop of \<open>step\<close>, with its three local
  variables \<open>new_tokens\<close>, \<open>new_frequencies\<close> and \<open>new_token_map\<close> passed along.
\<close>

function step_loop ::
  "pair \<Rightarrow> TokenId list \<Rightarrow> nat \<Rightarrow> TokenId list \<Rightarrow> Frequencies \<Rightarrow> TokenMap
     \<Rightarrow> TokenId list \<times> Frequencies \<times> TokenMap" where
  "step_loop pair_to_replace ts old_idx new_tokens new_frequencies new_token_map =
     (if old_idx < length ts then
        if old_idx + 1 \<ge> length ts then
          (new_tokens @ [ts ! old_idx], new_frequencies, new_token_map)
        else if Pair_of (ts ! old_idx) (ts ! (old_idx + 1)) \<noteq> pair_to_replace then
          step_loop pair_to_replace ts (old_idx + 1) (new_tokens @ [ts ! old_idx])
            new_frequencies new_token_map
        else
          (let pair = Pair_of (ts ! old_idx) (ts ! (old_idx + 1));
               (new_token, tm) = create_or_get_pair new_token_map pair;
               left_token = (if new_tokens \<noteq> [] then Some (last new_tokens) else None);
               right_token = (if old_idx + 2 < length ts then Some (ts ! (old_idx + 2)) else None);
               fr = account_for_substitution new_frequencies left_token pair right_token new_token
           in step_loop pair_to_replace ts (old_idx + 2) (new_tokens @ [new_token]) fr tm)
      else (new_tokens, new_frequencies, new_token_map))"
  by pat_completeness auto
termination
  by (relation "measure (\<lambda>(p, ts, i, nt, fr, tm). length ts - i)") auto

declare step_loop.simps [simp del]

definition step :: "State \<Rightarrow> error + State" where
  "step state =
     (case most_used (frequencies state) of
        Inl e \<Rightarrow> Inl e
      | Inr (pair_to_replace, count) \<Rightarrow>
          if count = 1 then Inr state
          else (case step_loop pair_to_replace (tokens state) 0 [] (frequencies state)
                       (token_map state) of
                  (new_tokens, new_frequencies, new_token_map) \<Rightarrow>
                    Inr \<lparr> tokens = new_tokens, frequencies = new_frequencies,
                          token_map = new_token_map \<rparr>))"

section \<open>Decoding\<close>

text \<open>
  The \<open>while to_process:\<close> loop of \<open>_expand_token\<close>. The stack \<open>to_process\<close> is kept
  with its top at the head of the list: \<open>pop()\<close> takes the head, and appending
  \<open>mapping.right\<close> and then \<open>mapping.left\<close> puts \<open>left\<close> on top of \<open>right\<close>. A missing
  key raises \<open>KeyError\<close>. The loop need not end (the map may be cyclic), so the result is
  an option and \<open>None\<close> means that the loop runs forever.
\<close>

partial_function (option) expand_loop ::
  "TokenMap \<Rightarrow> TokenId list \<Rightarrow> nat list \<Rightarrow> (error + nat list) option" where
  "expand_loop tm to_process characters =
     (case to_process of
        [] \<Rightarrow> Some (Inr characters)
      | token_id # rest \<Rightarrow>
          (case map_of tm token_id of
             None \<Rightarrow> Some (Inl KeyError)
           | Some (Node mapping) \<Rightarrow>
               expand_loop tm (left mapping # right mapping # rest) characters
           | Some (Leaf mapping) \<Rightarrow>
               (case py_chr mapping of
                  Inl e \<Rightarrow> Some (Inl e)
                | Inr c \<Rightarrow> expand_loop tm rest (characters @ [c]))))"

declare expand_loop.simps [code]

definition expand_token :: "State \<Rightarrow> TokenId \<Rightarrow> (error + nat list) option" where
  "expand_token state token = expand_loop (token_map state) [token] []"

text \<open>The \<open>for token in self.tokens\<close> loop of \<open>to_text\<close>; the text is the list of characters.\<close>

fun to_text_loop :: "State \<Rightarrow> TokenId list \<Rightarrow> nat list \<Rightarrow> (error + pystr) option" where
  "to_text_loop state [] characters = Some (Inr characters)"
| "to_text_loop state (token # rest) characters =
     (case expand_token state token of
        None \<Rightarrow> None
      | Some (Inl e) \<Rightarrow> Some (Inl e)
      | Some (Inr cs) \<Rightarrow> to_text_loop state rest (characters @ cs))"

definition to_text :: "State \<Rightarrow> (error + pystr) option" where
  "to_text state = to_text_loop state (tokens state) []"

section \<open>The training loop of main\<close>

text \<open>
  \<open>while most_used(state.frequencies)[1] > 1: state = step(state)\<close>. The result is
  \<open>None\<close> when the loop runs forever, \<open>Some (Inl e)\<close> when it raises and
  \<open>Some (Inr state)\<close> when it leaves the loop with that state.
\<close>

partial_function (option) train :: "State \<Rightarrow> (error + State) option" where
  "train state =
     (case most_used (frequencies state) of
        Inl e \<Rightarrow> Some (Inl e)
      | Inr (pair_to_replace, count) \<Rightarrow>
          if count > 1 then
            (case step state of Inl e \<Rightarrow> Some (Inl e) | Inr next_state \<Rightarrow> train next_state)
          else Some (Inr state))"

declare train.simps [code]

section \<open>Runs of the program\<close>

text \<open>
  \<open>steps n state\<close> applies \<open>step\<close> \<open>n\<close> times and stops at the first exception. The
  states reachable from a text \<open>txt\<close> are the states \<open>s\<close> with
  \<open>steps n (from_text txt) = Inr s\<close> for some \<open>n\<close>.
\<close>

fun steps :: "nat \<Rightarrow> State \<Rightarrow> error + State" where
  "steps 0 state = Inr state"
| "steps (Suc n) state = (case step state of Inl e \<Rightarrow> Inl e | Inr next_state \<Rightarrow> steps n next_state)"

text \<open>
  The frequency table recomputed from scratch: the \<open>Counter\<close> of the adjacent pairs of a
  token sequence, built as \<open>from_text\<close> builds it.
\<close>

definition recount :: "TokenId list \<Rightarrow> Frequencies" where
  "recount ts = Counter_of (map (\<lambda>(l, r). Pair_of l r) (pairwise_list ts))"

text \<open>
  The number of iterations of the loop of \<open>step\<close> that take the merge branch (the calls of
  \<open>create_or_get_pair\<close>) when the tokens that are still to be read are \<open>ts\<close>, and the
  number of merges of a whole call of \<open>step\<close>.
\<close>

fun merge_count :: "pair \<Rightarrow> TokenId list \<Rightarrow> nat" where
  "merge_count p (a # b # rest) =
     (if Pair_of a b \<noteq> p then merge_count p (b # rest) else Suc (merge_count p rest))"
| "merge_count p ts = 0"

definition step_merges :: "State \<Rightarrow> nat" where
  "step_merges state =
     (case most_used (frequencies state) of
        Inl e \<Rightarrow> 0
      | Inr (pair_to_replace, count) \<Rightarrow>
          if count = 1 then 0 else merge_count pair_to_replace (tokens state))"

section \<open>Auxiliary notions for the proofs\<close>

text \<open>
  The loop of \<open>step\<close> as a recursion over the tokens that are still to be read; lemma
  \<open>step_loop_rewrite\<close> shows that it computes what the indexed loop computes.
\<close>

fun rewrite ::
  "pair \<Rightarrow> TokenId list \<Rightarrow> TokenId list \<Rightarrow> Frequencies \<Rightarrow> TokenMap
     \<Rightarrow> TokenId list \<times> Frequencies \<times> TokenMap" where
  "rewrite p [] nt fr tm = (nt, fr, tm)"
| "rewrite p [a] nt fr tm = (nt @ [a], fr, tm)"
| "rewrite p (a # b # rest) nt fr tm =
     (if Pair_of a b \<noteq> p then rewrite p (b # rest) (nt @ [a]) fr tm
      else (case create_or_get_pair tm (Pair_of a b) of
              (n, tm') \<Rightarrow>
                rewrite p rest (nt @ [n])
                  (account_for_substitution fr (if nt \<noteq> [] then Some (last nt) else None)
                     (Pair_of a b) (case rest of [] \<Rightarrow> None | r # _ \<Rightarrow> Some r) n)
                  tm'))"

text \<open>
  The keys of a token map are \<open>0, 1, \<dots>, len - 1\<close> in this order, so that \<open>len(map)\<close>
  is a fresh key.
\<close>

definition keys_ok :: "TokenMap \<Rightarrow> bool" where
  "keys_ok tm = (map fst tm = map int [0..<length tm])"

text \<open>No two ids of the token map are mapped to the same pair.\<close>

definition pair_injective :: "TokenMap \<Rightarrow> bool" where
  "pair_injective tm =
     (\<forall>k k' p. map_of tm k = Some (Node p) \<and> map_of tm k' = Some (Node p) \<longrightarrow> k = k')"

text \<open>
  A well-formed token map: a leaf is one of the 256 base ids and is mapped to itself, and
  both ids of a pair are existing ids below the id that is mapped to the pair.
\<close>

definition wf_map :: "TokenMap \<Rightarrow> bool" where
  "wf_map tm =
     (keys_ok tm \<and>
      (\<forall>(k, e) \<in> set tm.
         case e of
           Leaf i \<Rightarrow> i = k \<and> k < 256
         | Node p \<Rightarrow> 0 \<le> left p \<and> left p < k \<and> 0 \<le> right p \<and> right p < k))"

text \<open>
  The characters a token stands for: the leaves of its pair tree from left to right, and
  the concatenation of these for a token sequence.
\<close>

inductive expands :: "TokenMap \<Rightarrow> TokenId \<Rightarrow> nat list \<Rightarrow> bool" for tm :: TokenMap where
  leaf: "map_of tm t = Some (Leaf i) \<Longrightarrow> py_chr i = Inr c \<Longrightarrow> expands tm t [c]"
| node: "map_of tm t = Some (Node p) \<Longrightarrow> expands tm (left p) l \<Longrightarrow> expands tm (right p) r
          \<Longrightarrow> expands tm t (l @ r)"

inductive decodes :: "TokenMap \<Rightarrow> TokenId list \<Rightarrow> nat list \<Rightarrow> bool" for tm :: TokenMap where
  nil: "decodes tm [] []"
| cons: "expands tm t cs \<Longrightarrow> decodes tm ts rest \<Longrightarrow> decodes tm (t # ts) (cs @ rest)"

text \<open>
  The number of times a pair occurs as two adjacent tokens of a sequence.
\<close>

definition occurrences :: "TokenId list \<Rightarrow> pair \<Rightarrow> int" where
  "occurrences ts q = int (count_list (map (\<lambda>(l, r). Pair_of l r) (pairwise_list ts)) q)"

text \<open>
  A state is consistent when the id 0 is a leaf of its token map and no token of its
  sequence, the keys of its frequency table are distinct as the keys of a \<open>Counter\<close> are,
  and the table holds for every pair the number of its occurrences in the sequence.
\<close>

definition zero_is_leaf :: "TokenMap \<Rightarrow> bool" where
  "zero_is_leaf tm = ((0, Leaf 0) \<in> set tm)"

definition consistent :: "State \<Rightarrow> bool" where
  "consistent s =
     (keys_ok (token_map s) \<and> zero_is_leaf (token_map s) \<and> 0 \<notin> set (tokens s) \<and>
      distinct (map fst (frequencies s)) \<and>
      (\<forall>q. counter_get (frequencies s) q = occurrences (tokens s) q))"

section \<open>The indexed loop and the recursion over the remaining tokens\<close>

lemma drop_last_elem: "i < length ts \<Longrightarrow> length ts \<le> i + 1 \<Longrightarrow> drop i ts = [ts ! i]"
  by (metis Cons_nth_drop_Suc Suc_eq_plus1 drop_all)

lemma drop_two: "i + 1 < length ts \<Longrightarrow> drop i ts = ts ! i # ts ! (i + 1) # drop (i + 2) ts"
  by (metis Cons_nth_drop_Suc Suc_eq_plus1 add_lessD1 add_2_eq_Suc')

lemma right_neighbour:
  "(if i + 2 < length ts then Some (ts ! (i + 2)) else None) =
   (case drop (i + 2) ts of [] \<Rightarrow> None | r # _ \<Rightarrow> Some r)"
  by (auto split: list.splits simp: hd_drop_conv_nth dest: arg_cong[where f=hd])

lemma step_loop_rewrite: "step_loop p ts i nt fr tm = rewrite p (drop i ts) nt fr tm"
proof (induction p ts i nt fr tm rule: step_loop.induct)
  case (1 p ts i nt fr tm)
  show ?case
  proof (cases "i < length ts")
    case False
    then show ?thesis by (subst step_loop.simps) simp
  next
    case inb: True
    show ?thesis
    proof (cases "length ts \<le> i + 1")
      case True
      with inb show ?thesis by (subst step_loop.simps) (simp add: drop_last_elem)
    next
      case False
      then have two: "i + 1 < length ts" by simp
      show ?thesis
      proof (cases "Pair_of (ts ! i) (ts ! (i + 1)) \<noteq> p")
        case True
        have d1: "drop (i + 1) ts = ts ! (i + 1) # drop (i + 2) ts"
          using two by (metis Cons_nth_drop_Suc Suc_eq_plus1 add_2_eq_Suc')
        have "step_loop p ts i nt fr tm = step_loop p ts (i + 1) (nt @ [ts ! i]) fr tm"
          using True inb False by (subst step_loop.simps) simp
        also have "\<dots> = rewrite p (drop (i + 1) ts) (nt @ [ts ! i]) fr tm"
          using "1.IH"(1) True inb False by simp
        also have "\<dots> = rewrite p (drop i ts) nt fr tm"
          using True by (simp add: drop_two[OF two] d1 del: One_nat_def)
        finally show ?thesis .
      next
        case False
        then have eq: "Pair_of (ts ! i) (ts ! (i + 1)) = p" by simp
        obtain n tm' where c: "create_or_get_pair tm (Pair_of (ts ! i) (ts ! (i + 1))) = (n, tm')"
          by (cases "create_or_get_pair tm (Pair_of (ts ! i) (ts ! (i + 1)))")
        let ?old = "account_for_substitution fr (if nt \<noteq> [] then Some (last nt) else None)
               (Pair_of (ts ! i) (ts ! (i + 1)))
               (if i + 2 < length ts then Some (ts ! (i + 2)) else None) n"
        let ?new = "account_for_substitution fr (if nt \<noteq> [] then Some (last nt) else None)
               (Pair_of (ts ! i) (ts ! (i + 1)))
               (case drop (i + 2) ts of [] \<Rightarrow> None | r # _ \<Rightarrow> Some r) n"
        have frs: "?old = ?new"
          by (simp only: right_neighbour)
        have "step_loop p ts i nt fr tm = step_loop p ts (i + 2) (nt @ [n]) ?old tm'"
          using inb two eq c by (subst step_loop.simps) (simp add: Let_def)
        also have "\<dots> = rewrite p (drop (i + 2) ts) (nt @ [n]) ?old tm'"
          using "1.IH"(2)[OF inb _ _ refl c[symmetric] refl refl refl] two eq by simp
        also have "\<dots> = rewrite p (drop (i + 2) ts) (nt @ [n]) ?new tm'"
          by (simp only: frs)
        also have "\<dots> = rewrite p (ts ! i # ts ! (i + 1) # drop (i + 2) ts) nt fr tm"
          using eq c by simp
        also have "\<dots> = rewrite p (drop i ts) nt fr tm"
          by (simp only: drop_two[OF two])
        finally show ?thesis .
      qed
    qed
  qed
qed

lemma step_Inr:
  assumes "step s = Inr s'"
  shows "s' = s \<or>
         (\<exists>p c. most_used (frequencies s) = Inr (p, c) \<and> c \<noteq> 1 \<and>
            rewrite p (tokens s) [] (frequencies s) (token_map s) =
              (tokens s', frequencies s', token_map s'))"
proof (cases "most_used (frequencies s)")
  case (Inl e)
  with assms show ?thesis by (simp add: step_def)
next
  case (Inr pc)
  obtain p c where pc: "pc = (p, c)" by (cases pc)
  show ?thesis
  proof (cases "c = 1")
    case True
    with assms Inr pc show ?thesis by (simp add: step_def)
  next
    case False
    obtain a b d where r: "rewrite p (tokens s) [] (frequencies s) (token_map s) = (a, b, d)"
      by (cases "rewrite p (tokens s) [] (frequencies s) (token_map s)")
    from assms Inr pc False r have "s' = \<lparr>tokens = a, frequencies = b, token_map = d\<rparr>"
      by (simp add: step_def step_loop_rewrite)
    with r Inr pc False show ?thesis by auto
  qed
qed

lemma step_noop:
  "most_used (frequencies s) = Inr (p, 1) \<Longrightarrow> step s = Inr s"
  by (simp add: step_def)

section \<open>Properties of the merge table\<close>

lemma update_fresh: "k \<notin> fst ` set al \<Longrightarrow> AList.update k v al = al @ [(k, v)]"
  by (induction al) auto

lemma keys_ok_set: "keys_ok tm \<Longrightarrow> fst ` set tm = int ` {0..<length tm}"
proof -
  assume "keys_ok tm"
  then have "set (map fst tm) = set (map int [0..<length tm])"
    by (simp only: keys_ok_def)
  then show ?thesis by simp
qed

lemma keys_ok_fresh: "keys_ok tm \<Longrightarrow> int (length tm) \<notin> fst ` set tm"
  by (auto simp: keys_ok_set)

lemma keys_ok_distinct: "keys_ok tm \<Longrightarrow> distinct (map fst tm)"
  by (simp add: keys_ok_def distinct_map inj_on_def)

lemma keys_ok_append: "keys_ok tm \<Longrightarrow> keys_ok (tm @ [(int (length tm), v)])"
  by (simp add: keys_ok_def)

lemma keys_ok_map_of: "keys_ok tm \<Longrightarrow> (map_of tm k = Some e) = ((k, e) \<in> set tm)"
  by (simp add: keys_ok_distinct)

lemma keys_ok_dom:
  "keys_ok tm \<Longrightarrow> (map_of tm k \<noteq> None) = (0 \<le> k \<and> k < int (length tm))"
proof -
  assume k: "keys_ok tm"
  have "(map_of tm k \<noteq> None) = (k \<in> fst ` set tm)"
    by (simp add: map_of_eq_None_iff)
  also have "\<dots> = (k \<in> int ` {0..<length tm})"
    using keys_ok_set[OF k] by simp
  also have "\<dots> = (0 \<le> k \<and> k < int (length tm))"
    by (auto simp: image_iff intro: bexI[where x="nat k"])
  finally show ?thesis .
qed

lemma append_map_of:
  assumes "keys_ok tm" and "map_of tm k = Some v"
  shows "map_of (tm @ [(int (length tm), w)]) k = Some v"
proof -
  from assms(2) have "k \<in> fst ` set tm" by (metis map_of_eq_None_iff option.distinct(1))
  with keys_ok_fresh[OF assms(1)] have "k \<noteq> int (length tm)" by blast
  with assms(2) show ?thesis by (simp add: map_add_def)
qed

lemma find_node_None: "(find (\<lambda>(t, e). e = Node p) tm = None) = (\<forall>k. (k, Node p) \<notin> set tm)"
  by (auto simp: find_None_iff)

lemma find_node_Some:
  "find (\<lambda>(t, e). e = Node p) tm = Some (k, e) \<Longrightarrow> e = Node p \<and> (k, Node p) \<in> set tm"
  by (induction tm) (auto split: if_splits)

lemma cogp_cases:
  assumes "keys_ok tm" and "create_or_get_pair tm p = (n, tm')"
  shows "(tm' = tm \<and> (n, Node p) \<in> set tm) \<or>
         (tm' = tm @ [(int (length tm), Node p)] \<and> n = int (length tm) \<and>
          (\<forall>k. (k, Node p) \<notin> set tm))"
proof (cases "find (\<lambda>(t, e). e = Node p) tm")
  case None
  with assms show ?thesis
    by (auto simp: create_or_get_pair_def Let_def update_fresh[OF keys_ok_fresh] find_node_None)
next
  case (Some a)
  obtain k e where a: "a = (k, e)" by (cases a)
  from find_node_Some[OF Some[unfolded a]] Some assms(2) a show ?thesis
    by (simp add: create_or_get_pair_def)
qed

lemma cogp_fresh:
  assumes "keys_ok tm" and "\<forall>k. (k, Node p) \<notin> set tm"
  shows "create_or_get_pair tm p = (int (length tm), tm @ [(int (length tm), Node p)])"
proof -
  obtain n tm' where c: "create_or_get_pair tm p = (n, tm')"
    by (cases "create_or_get_pair tm p")
  from cogp_cases[OF assms(1) c] assms(2) c show ?thesis by auto
qed

lemma cogp_existing:
  assumes "keys_ok tm" and "pair_injective tm" and "map_of tm k = Some (Node p)"
  shows "create_or_get_pair tm p = (k, tm)"
proof -
  obtain n tm' where c: "create_or_get_pair tm p = (n, tm')"
    by (cases "create_or_get_pair tm p")
  from assms(3) have kin: "(k, Node p) \<in> set tm"
    by (simp add: keys_ok_map_of[OF assms(1)])
  from cogp_cases[OF assms(1) c] kin have "tm' = tm" and "(n, Node p) \<in> set tm"
    by auto
  then have "map_of tm n = Some (Node p)"
    by (simp add: keys_ok_map_of[OF assms(1)])
  with assms(2,3) have "n = k" by (auto simp: pair_injective_def)
  with c \<open>tm' = tm\<close> show ?thesis by simp
qed

lemma cogp_keys_ok:
  assumes "keys_ok tm" and "create_or_get_pair tm p = (n, tm')"
  shows "keys_ok tm'"
  using cogp_cases[OF assms] assms(1) by (auto simp: keys_ok_append)

lemma cogp_pair_injective:
  assumes "keys_ok tm" and "pair_injective tm" and "create_or_get_pair tm p = (n, tm')"
  shows "pair_injective tm'"
proof -
  from cogp_cases[OF assms(1,3)] show ?thesis
  proof
    assume "tm' = tm \<and> (n, Node p) \<in> set tm"
    with assms(2) show ?thesis by simp
  next
    assume new: "tm' = tm @ [(int (length tm), Node p)] \<and> n = int (length tm) \<and>
          (\<forall>k. (k, Node p) \<notin> set tm)"
    have k': "keys_ok tm'" by (rule cogp_keys_ok[OF assms(1,3)])
    show ?thesis
      unfolding pair_injective_def keys_ok_map_of[OF k']
      using new assms(2)
      by (auto simp: pair_injective_def keys_ok_map_of[OF assms(1)])
  qed
qed

lemma cogp_idem:
  assumes "keys_ok tm" and "create_or_get_pair tm p = (n, tm')"
  shows "create_or_get_pair tm' p = (n, tm')"
proof -
  have k': "keys_ok tm'" by (rule cogp_keys_ok[OF assms])
  obtain n2 tm2 where c2: "create_or_get_pair tm' p = (n2, tm2)"
    by (cases "create_or_get_pair tm' p")
  have nin: "(n, Node p) \<in> set tm'"
    using cogp_cases[OF assms] by auto
  with cogp_cases[OF k' c2] have same: "tm2 = tm'" and n2in: "(n2, Node p) \<in> set tm'"
    by auto
  have "n2 = n"
  proof -
    from cogp_cases[OF assms] show ?thesis
    proof
      assume old: "tm' = tm \<and> (n, Node p) \<in> set tm"
      with assms(2) c2 show ?thesis by simp
    next
      assume new: "tm' = tm @ [(int (length tm), Node p)] \<and> n = int (length tm) \<and>
          (\<forall>k. (k, Node p) \<notin> set tm)"
      with n2in show ?thesis by auto
    qed
  qed
  with c2 same show ?thesis by simp
qed

lemma rewrite_tm:
  "keys_ok tm \<Longrightarrow> rewrite p ts nt fr tm = (nt', fr', tm')
     \<Longrightarrow> tm' = tm \<or> tm' = snd (create_or_get_pair tm p)"
proof (induction p ts nt fr tm rule: rewrite.induct)
  case (3 p a b rest nt fr tm)
  show ?case
  proof (cases "Pair_of a b = p")
    case False
    with 3 show ?thesis by simp
  next
    case True
    obtain n tm1 where c: "create_or_get_pair tm (Pair_of a b) = (n, tm1)"
      by (cases "create_or_get_pair tm (Pair_of a b)")
    have k1: "keys_ok tm1" by (rule cogp_keys_ok[OF "3.prems"(1) c])
    have idem: "create_or_get_pair tm1 p = (n, tm1)"
      using cogp_idem[OF "3.prems"(1) c] True by simp
    from "3.IH"(2)[OF _ c[symmetric] k1] "3.prems"(2) True c
    have "tm' = tm1 \<or> tm' = snd (create_or_get_pair tm1 p)" by simp
    with idem have "tm' = tm1" by auto
    with c True show ?thesis by simp
  qed
qed simp_all

lemma step_token_map:
  assumes "keys_ok (token_map s)" and "step s = Inr s'"
  shows "token_map s' = token_map s \<or>
         (\<exists>p. token_map s' = token_map s @ [(int (length (token_map s)), Node p)])"
proof -
  from step_Inr[OF assms(2)] show ?thesis
  proof
    assume "s' = s" then show ?thesis by simp
  next
    assume "\<exists>p c. most_used (frequencies s) = Inr (p, c) \<and> c \<noteq> 1 \<and>
            rewrite p (tokens s) [] (frequencies s) (token_map s) =
              (tokens s', frequencies s', token_map s')"
    then obtain p where r: "rewrite p (tokens s) [] (frequencies s) (token_map s) =
              (tokens s', frequencies s', token_map s')" by blast
    obtain n tm1 where c: "create_or_get_pair (token_map s) p = (n, tm1)"
      by (cases "create_or_get_pair (token_map s) p")
    from rewrite_tm[OF assms(1) r] c cogp_cases[OF assms(1) c] show ?thesis
      by auto
  qed
qed

lemma step_keys_inj:
  assumes "keys_ok (token_map s)" and "pair_injective (token_map s)" and "step s = Inr s'"
  shows "keys_ok (token_map s') \<and> pair_injective (token_map s')"
proof -
  from step_Inr[OF assms(3)] show ?thesis
  proof
    assume "s' = s" with assms show ?thesis by simp
  next
    assume "\<exists>p c. most_used (frequencies s) = Inr (p, c) \<and> c \<noteq> 1 \<and>
            rewrite p (tokens s) [] (frequencies s) (token_map s) =
              (tokens s', frequencies s', token_map s')"
    then obtain p where r: "rewrite p (tokens s) [] (frequencies s) (token_map s) =
              (tokens s', frequencies s', token_map s')" by blast
    obtain n tm1 where c: "create_or_get_pair (token_map s) p = (n, tm1)"
      by (cases "create_or_get_pair (token_map s) p")
    from rewrite_tm[OF assms(1) r] c have "token_map s' = token_map s \<or> token_map s' = tm1"
      by simp
    with assms cogp_keys_ok[OF assms(1) c] cogp_pair_injective[OF assms(1,2) c]
    show ?thesis by auto
  qed
qed

lemma steps_keys_inj:
  "keys_ok (token_map s0) \<Longrightarrow> pair_injective (token_map s0) \<Longrightarrow> steps n s0 = Inr s
     \<Longrightarrow> keys_ok (token_map s) \<and> pair_injective (token_map s)"
proof (induction n arbitrary: s0)
  case 0
  then show ?case by simp
next
  case (Suc n)
  from Suc.prems(3) obtain s1 where s1: "step s0 = Inr s1" and rest: "steps n s1 = Inr s"
    by (auto split: sum.splits)
  from step_keys_inj[OF Suc.prems(1,2) s1] Suc.IH[OF _ _ rest] show ?case by simp
qed

section \<open>The initial state\<close>

lemma from_text_token_map:
  "token_map (from_text txt) = map (\<lambda>i. (int i, Leaf (int i))) [0..<256]"
  by (simp add: from_text_def)

lemma from_text_tokens: "tokens (from_text txt) = map py_ord txt"
  by (simp add: from_text_def)

lemma from_text_frequencies:
  "frequencies (from_text txt) =
     Counter_of (map (\<lambda>(l, r). Pair_of (py_ord l) (py_ord r)) (pairwise_list txt))"
  by (simp add: from_text_def)

lemma from_text_keys_ok: "keys_ok (token_map (from_text txt))"
  by (simp add: from_text_token_map keys_ok_def comp_def)

lemma from_text_no_node: "map_of (token_map (from_text txt)) k \<noteq> Some (Node p)"
proof
  assume "map_of (token_map (from_text txt)) k = Some (Node p)"
  then have "(k, Node p) \<in> set (token_map (from_text txt))"
    by (rule map_of_SomeD)
  then show False by (auto simp: from_text_token_map)
qed

lemma from_text_pair_injective: "pair_injective (token_map (from_text txt))"
  by (simp add: pair_injective_def from_text_no_node)

lemma base_map_of:
  "map_of (map (\<lambda>i. (int i, Leaf (int i))) [0..<n]) (int c) =
     (if c < n then Some (Leaf (int c)) else None)"
  by (induction n) (auto simp: map_add_def split: option.splits)

lemma from_text_lookup:
  "map_of (token_map (from_text txt)) (py_ord c) =
     (if c < 256 then Some (Leaf (py_ord c)) else None)"
  by (simp add: from_text_token_map py_ord_def base_map_of)

lemma from_text_wf: "wf_map (token_map (from_text txt))"
  using from_text_keys_ok[of "txt"] by (auto simp: wf_map_def from_text_token_map)

lemma cogp_from_text:
  "create_or_get_pair (token_map (from_text txt)) p =
     (256, token_map (from_text txt) @ [(256, Node p)])"
proof -
  have "\<forall>k. (k, Node p) \<notin> set (token_map (from_text txt))"
    by (auto simp: from_text_token_map)
  from cogp_fresh[OF from_text_keys_ok this] show ?thesis
    by (simp add: from_text_token_map)
qed

lemma cogp_from_text_again:
  "create_or_get_pair (token_map (from_text txt) @ [(256, Node p)]) p =
     (256, token_map (from_text txt) @ [(256, Node p)])"
  by (rule cogp_idem[OF from_text_keys_ok cogp_from_text])

lemma appended_lookup:
  "map_of (token_map (from_text txt) @ [(256, Node p)]) 256 = Some (Node p)"
proof -
  have k: "keys_ok (token_map (from_text txt) @ [(256, Node p)])"
    using keys_ok_append[OF from_text_keys_ok, of "txt" "Node p"]
    by (simp add: from_text_token_map)
  show ?thesis
    unfolding keys_ok_map_of[OF k] by simp
qed

section \<open>Decoding a well-formed state\<close>

lemma expands_loop:
  "expands tm t cs \<Longrightarrow> expand_loop tm (t # stack) acc = expand_loop tm stack (acc @ cs)"
proof (induction arbitrary: stack acc rule: expands.induct)
  case (leaf t i c)
  then show ?case by (subst expand_loop.simps) simp
next
  case (node t p l r)
  have "expand_loop tm (t # stack) acc = expand_loop tm (left p # right p # stack) acc"
    using node.hyps(1) by (subst expand_loop.simps) simp
  also have "\<dots> = expand_loop tm (right p # stack) (acc @ l)"
    by (rule node.IH(1))
  also have "\<dots> = expand_loop tm stack ((acc @ l) @ r)"
    by (rule node.IH(2))
  finally show ?case by simp
qed

lemma expands_token: "expands (token_map s) t cs \<Longrightarrow> expand_token s t = Some (Inr cs)"
proof -
  assume e: "expands (token_map s) t cs"
  have "expand_token s t = expand_loop (token_map s) [] ([] @ cs)"
    unfolding expand_token_def by (rule expands_loop[OF e])
  also have "\<dots> = Some (Inr cs)"
    by (subst expand_loop.simps) simp
  finally show ?thesis .
qed

lemma decodes_to_text_loop:
  "decodes (token_map s) ts cs \<Longrightarrow> to_text_loop s ts acc = Some (Inr (acc @ cs))"
proof (induction arbitrary: acc rule: decodes.induct)
  case nil
  show ?case by simp
next
  case (cons t cs ts rest)
  from expands_token[OF cons.hyps(1)] cons.IH[of "acc @ cs"] show ?case by simp
qed

lemma decodes_to_text: "decodes (token_map s) (tokens s) txt \<Longrightarrow> to_text s = Some (Inr txt)"
  using decodes_to_text_loop[of s "tokens s" "txt" "[]"] by (simp add: to_text_def)

lemma expands_mono:
  assumes "expands tm t cs" and "\<And>k v. map_of tm k = Some v \<Longrightarrow> map_of tm' k = Some v"
  shows "expands tm' t cs"
  using assms(1)
proof (induction rule: expands.induct)
  case (leaf t i c)
  from assms(2)[OF leaf(1)] leaf(2) show ?case by (rule expands.leaf)
next
  case (node t p l r)
  from assms(2)[OF node.hyps(1)] node.IH show ?case by (rule expands.node)
qed

lemma decodes_mono:
  assumes "decodes tm ts cs" and "\<And>k v. map_of tm k = Some v \<Longrightarrow> map_of tm' k = Some v"
  shows "decodes tm' ts cs"
  using assms(1)
proof (induction rule: decodes.induct)
  case nil
  show ?case by (rule decodes.nil)
next
  case (cons t cs ts rest)
  from expands_mono[OF cons.hyps(1) assms(2)] cons.IH show ?case by (rule decodes.cons)
qed

lemma decodes_append:
  "decodes tm xs a \<Longrightarrow> decodes tm ys b \<Longrightarrow> decodes tm (xs @ ys) (a @ b)"
proof (induction rule: decodes.induct)
  case nil
  then show ?case by simp
next
  case (cons t cs ts rest)
  from decodes.cons[OF cons.hyps(1) cons.IH[OF cons.prems]] show ?case by simp
qed

lemma decodes_ConsE:
  assumes "decodes tm (t # ts) c"
  obtains a b where "expands tm t a" and "decodes tm ts b" and "c = a @ b"
  using assms by (cases rule: decodes.cases) auto

lemma decodes_appendD:
  "decodes tm (xs @ ys) c \<Longrightarrow> \<exists>a b. decodes tm xs a \<and> decodes tm ys b \<and> c = a @ b"
proof (induction xs arbitrary: c)
  case Nil
  then show ?case by (auto intro: decodes.nil)
next
  case (Cons x xs)
  from Cons.prems obtain a b where a: "expands tm x a" and b: "decodes tm (xs @ ys) b"
    and c: "c = a @ b"
    by (auto elim: decodes_ConsE)
  from Cons.IH[OF b] obtain b1 b2 where "decodes tm xs b1" "decodes tm ys b2" "b = b1 @ b2"
    by blast
  with a c show ?case by (auto intro: decodes.cons)
qed

lemma expands_key: "expands tm t cs \<Longrightarrow> map_of tm t \<noteq> None"
  by (cases rule: expands.cases) auto

lemma wf_map_expands:
  assumes "wf_map tm"
  shows "0 \<le> t \<Longrightarrow> t < int (length tm) \<Longrightarrow> \<exists>cs. expands tm t cs"
proof (induction "nat t" arbitrary: t rule: less_induct)
  case less
  from assms have k: "keys_ok tm" by (simp add: wf_map_def)
  from keys_ok_dom[OF k, of t] less.prems obtain e where e: "map_of tm t = Some e"
    by auto
  then have mem: "(t, e) \<in> set tm" by (simp add: keys_ok_map_of[OF k])
  show ?case
  proof (cases e)
    case (Leaf i)
    with assms mem have "i = t" and "t < 256" by (auto simp: wf_map_def)
    with less.prems have "py_chr i = Inr (nat i)" by (simp add: py_chr_def)
    with e Leaf show ?thesis by (auto intro: expands.leaf)
  next
    case (Node p)
    with assms mem have b: "0 \<le> left p" "left p < t" "0 \<le> right p" "right p < t"
      by (auto simp: wf_map_def)
    from less.hyps[of "left p"] b less.prems obtain l where l: "expands tm (left p) l" by auto
    from less.hyps[of "right p"] b less.prems obtain r where r: "expands tm (right p) r" by auto
    from e Node l r show ?thesis by (auto intro: expands.node)
  qed
qed

lemma cogp_wf:
  assumes "wf_map tm" and "expands tm a ca" and "expands tm b cb"
    and "create_or_get_pair tm (Pair_of a b) = (n, tm')"
  shows "wf_map tm' \<and> expands tm' n (ca @ cb) \<and>
         (\<forall>k v. map_of tm k = Some v \<longrightarrow> map_of tm' k = Some v)"
proof -
  from assms(1) have k: "keys_ok tm" by (simp add: wf_map_def)
  have ra: "0 \<le> a \<and> a < int (length tm)" using expands_key[OF assms(2)] keys_ok_dom[OF k] by simp
  have rb: "0 \<le> b \<and> b < int (length tm)" using expands_key[OF assms(3)] keys_ok_dom[OF k] by simp
  from cogp_cases[OF k assms(4)] show ?thesis
  proof
    assume old: "tm' = tm \<and> (n, Node (Pair_of a b)) \<in> set tm"
    then have "map_of tm n = Some (Node (Pair_of a b))" by (simp add: keys_ok_map_of[OF k])
    then have "expands tm n (ca @ cb)" using assms(2,3) by (auto intro: expands.node)
    with old assms(1) show ?thesis by simp
  next
    assume new: "tm' = tm @ [(int (length tm), Node (Pair_of a b))] \<and> n = int (length tm) \<and>
          (\<forall>k. (k, Node (Pair_of a b)) \<notin> set tm)"
    have ext: "\<And>k v. map_of tm k = Some v \<Longrightarrow> map_of tm' k = Some v"
      using new append_map_of[OF k] by simp
    have k': "keys_ok tm'" using new keys_ok_append[OF k] by simp
    have wf: "wf_map tm'"
      using assms(1) new ra rb k' by (auto simp: wf_map_def)
    have "map_of tm' n = Some (Node (Pair_of a b))"
      unfolding keys_ok_map_of[OF k'] using new by simp
    then have "expands tm' n (ca @ cb)"
      using expands_mono[OF assms(2) ext] expands_mono[OF assms(3) ext]
      by (auto intro: expands.node)
    with wf ext show ?thesis by blast
  qed
qed

lemma rewrite_decodes:
  "wf_map tm \<Longrightarrow> decodes tm (nt @ ts) txt \<Longrightarrow> rewrite p ts nt fr tm = (nt', fr', tm')
     \<Longrightarrow> wf_map tm' \<and> decodes tm' nt' txt"
proof (induction p ts nt fr tm rule: rewrite.induct)
  case (3 p a b rest nt fr tm)
  show ?case
  proof (cases "Pair_of a b = p")
    case False
    with 3 show ?thesis by simp
  next
    case True
    obtain n tm1 where c: "create_or_get_pair tm (Pair_of a b) = (n, tm1)"
      by (cases "create_or_get_pair tm (Pair_of a b)")
    from decodes_appendD[OF "3.prems"(2)] obtain x y where x: "decodes tm nt x"
      and y: "decodes tm (a # b # rest) y" and t: "txt = x @ y" by blast
    from y obtain ca y1 where ca: "expands tm a ca" and y1: "decodes tm (b # rest) y1"
      and ya: "y = ca @ y1" by (auto elim: decodes_ConsE)
    from y1 obtain cb cr where cb: "expands tm b cb" and cr: "decodes tm rest cr"
      and yb: "y1 = cb @ cr" by (auto elim: decodes_ConsE)
    from cogp_wf[OF "3.prems"(1) ca cb c] have wf1: "wf_map tm1"
      and en: "expands tm1 n (ca @ cb)"
      and ext: "\<And>k v. map_of tm k = Some v \<Longrightarrow> map_of tm1 k = Some v" by blast+
    have "decodes tm1 (nt @ [n]) (x @ (ca @ cb) @ [])"
      by (rule decodes_append[OF decodes_mono[OF x ext]
            decodes.cons[OF en decodes.nil]])
    from decodes_append[OF this decodes_mono[OF cr ext]]
    have d1: "decodes tm1 ((nt @ [n]) @ rest) txt"
      using t ya yb by simp
    from "3.IH"(2)[OF _ c[symmetric] wf1 d1] "3.prems"(3) True c show ?thesis by simp
  qed
qed simp_all

lemma step_decodes:
  assumes "wf_map (token_map s)" and "decodes (token_map s) (tokens s) txt"
    and "step s = Inr s'"
  shows "wf_map (token_map s') \<and> decodes (token_map s') (tokens s') txt"
proof -
  from step_Inr[OF assms(3)] show ?thesis
  proof
    assume "s' = s" with assms show ?thesis by simp
  next
    assume "\<exists>p c. most_used (frequencies s) = Inr (p, c) \<and> c \<noteq> 1 \<and>
            rewrite p (tokens s) [] (frequencies s) (token_map s) =
              (tokens s', frequencies s', token_map s')"
    then obtain p where r: "rewrite p (tokens s) [] (frequencies s) (token_map s) =
              (tokens s', frequencies s', token_map s')" by blast
    from assms(2) have "decodes (token_map s) ([] @ tokens s) txt" by simp
    from rewrite_decodes[OF assms(1) this r] show ?thesis .
  qed
qed

lemma steps_decodes:
  "wf_map (token_map s0) \<Longrightarrow> decodes (token_map s0) (tokens s0) txt \<Longrightarrow> steps n s0 = Inr s
     \<Longrightarrow> wf_map (token_map s) \<and> decodes (token_map s) (tokens s) txt"
proof (induction n arbitrary: s0)
  case 0
  then show ?case by simp
next
  case (Suc n)
  from Suc.prems(3) obtain s1 where s1: "step s0 = Inr s1" and rest: "steps n s1 = Inr s"
    by (auto split: sum.splits)
  from step_decodes[OF Suc.prems(1,2) s1] Suc.IH[OF _ _ rest] show ?case by simp
qed

lemma from_text_expands:
  assumes "c < 256"
  shows "expands (token_map (from_text txt)) (py_ord c) [c]"
proof -
  have "map_of (token_map (from_text txt)) (py_ord c) = Some (Leaf (int c))"
    using assms by (simp add: from_text_token_map py_ord_def base_map_of)
  moreover have "py_chr (int c) = Inr c"
    using assms by (simp add: py_chr_def)
  ultimately show ?thesis by (rule expands.leaf)
qed

lemma base_decodes:
  "\<forall>c \<in> set cs. c < 256 \<Longrightarrow> decodes (token_map (from_text txt)) (map py_ord cs) cs"
proof (induction cs)
  case Nil
  show ?case by (simp add: decodes.nil)
next
  case (Cons c cs)
  from Cons.prems have "c < 256" by simp
  from decodes.cons[OF from_text_expands[OF this] Cons.IH] Cons.prems show ?case by simp
qed

lemma from_text_decodes:
  "\<forall>c \<in> set txt. c < 256 \<Longrightarrow> decodes (token_map (from_text txt)) (tokens (from_text txt)) txt"
  using base_decodes[of "txt" "txt"] by (simp add: from_text_def)

section \<open>Runs that never return\<close>

lemma expand_loop_self_cycle:
  assumes "map_of tm t = Some (Node p)" and "left p = t"
  shows "expand_loop tm (t # stack) acc = None"
proof (rule ccontr)
  assume "expand_loop tm (t # stack) acc \<noteq> None"
  then obtain y where y: "expand_loop tm (t # stack) acc = Some y" by auto
  have "\<not> (tm = tm \<and> (\<exists>rest. t # stack = t # rest))"
  proof (rule expand_loop.raw_induct
      [where P="\<lambda>tm' to_process characters y. \<not> (tm' = tm \<and> (\<exists>rest. to_process = t # rest))",
        OF _ y])
    fix expand_loop' :: "TokenMap \<Rightarrow> TokenId list \<Rightarrow> nat list \<Rightarrow> (error + nat list) option"
      and tm' to_process characters y'
    assume IH: "\<And>tm' to_process characters y.
                 expand_loop' tm' to_process characters = Some y \<Longrightarrow>
                 \<not> (tm' = tm \<and> (\<exists>rest. to_process = t # rest))"
      and F: "(case to_process of
                 [] \<Rightarrow> Some (Inr characters)
               | token_id # rest \<Rightarrow>
                   (case map_of tm' token_id of
                      None \<Rightarrow> Some (Inl KeyError)
                    | Some (Node mapping) \<Rightarrow>
                        expand_loop' tm' (left mapping # right mapping # rest) characters
                    | Some (Leaf mapping) \<Rightarrow>
                        (case py_chr mapping of
                           Inl e \<Rightarrow> Some (Inl e)
                         | Inr c \<Rightarrow> expand_loop' tm' rest (characters @ [c])))) = Some y'"
    show "\<not> (tm' = tm \<and> (\<exists>rest. to_process = t # rest))"
    proof
      assume "tm' = tm \<and> (\<exists>rest. to_process = t # rest)"
      then obtain rest where "tm' = tm" and "to_process = t # rest" by blast
      with F assms have "expand_loop' tm (t # right p # rest) characters = Some y'" by simp
      from IH[OF this] show False by simp
    qed
  qed
  then show False by simp
qed


section \<open>The length of the rewritten sequence\<close>

lemma rewrite_length:
  "rewrite p ts nt fr tm = (nt', fr', tm')
     \<Longrightarrow> length nt' + merge_count p ts = length nt + length ts"
proof (induction p ts nt fr tm rule: rewrite.induct)
  case (3 p a b rest nt fr tm)
  show ?case
  proof (cases "Pair_of a b = p")
    case False
    with 3 show ?thesis by simp
  next
    case True
    obtain n tm1 where c: "create_or_get_pair tm (Pair_of a b) = (n, tm1)"
      by (cases "create_or_get_pair tm (Pair_of a b)")
    from "3.IH"(2)[OF _ c[symmetric]] "3.prems" True c show ?thesis by simp
  qed
qed auto

section \<open>The frequency table when no token is 0\<close>

text \<open>
  As long as the token 0 does not occur, every neighbour passes the test of
  \<open>account_for_substitution\<close>, and the incrementally maintained table is exact.
\<close>

lemma counter_get_add:
  "counter_get (counter_add fr q d) p = counter_get fr p + of_bool (p = q) * d"
  by (simp add: counter_add_def counter_get_def update_conv')

lemma counter_get_foldl:
  "counter_get (foldl (\<lambda>fr p. counter_add fr p 1) fr0 ps) q =
     counter_get fr0 q + int (count_list ps q)"
  by (induction ps arbitrary: fr0) (simp_all add: counter_get_add)

lemma counter_get_empty: "counter_get [] q = 0"
  by (simp add: counter_get_def)

lemma counter_get_Counter_of: "counter_get (Counter_of ps) q = int (count_list ps q)"
  by (simp add: Counter_of_def counter_get_foldl counter_get_empty)

lemma counter_get_recount: "counter_get (recount ts) q = occurrences ts q"
  by (simp add: recount_def occurrences_def counter_get_Counter_of)

lemma occurrences_Nil [simp]: "occurrences [] q = 0"
  by (simp add: occurrences_def pairwise_list_def)

lemma occurrences_single [simp]: "occurrences [a] q = 0"
  by (simp add: occurrences_def pairwise_list_def)

lemma occurrences_Cons2:
  "occurrences (a # b # rest) q = of_bool (q = Pair_of a b) + occurrences (b # rest) q"
  by (simp add: occurrences_def pairwise_list_def)

lemma occurrences_append:
  "xs \<noteq> [] \<Longrightarrow> ys \<noteq> [] \<Longrightarrow>
   occurrences (xs @ ys) q =
     occurrences xs q + of_bool (q = Pair_of (last xs) (hd ys)) + occurrences ys q"
proof (induction xs)
  case Nil
  then show ?case by simp
next
  case (Cons x xs)
  show ?case
  proof (cases xs)
    case Nil
    with Cons.prems show ?thesis
      by (cases ys) (simp_all add: occurrences_Cons2)
  next
    case (Cons x' xs')
    with Cons.IH Cons.prems show ?thesis
      by (simp add: occurrences_Cons2)
  qed
qed

lemma occurrences_positive:
  "0 < occurrences ts p \<Longrightarrow> 0 < merge_count p ts"
proof (induction p ts rule: merge_count.induct)
  case (1 p a b rest)
  then show ?case by (auto simp: occurrences_Cons2 split: if_splits)
qed simp_all

text \<open>
  A step merges at least once exactly when the pair to replace occurs in the token
  sequence.
\<close>

lemma occurrences_nonneg: "0 \<le> occurrences ts p"
  by (simp add: occurrences_def)

lemma merge_count_positive_iff: "(0 < merge_count p ts) = (0 < occurrences ts p)"
proof
  assume "0 < merge_count p ts"
  then show "0 < occurrences ts p"
  proof (induction p ts rule: merge_count.induct)
    case (1 p a b rest)
    show ?case
    proof (cases "Pair_of a b = p")
      case True
      with occurrences_nonneg[of "b # rest" p] show ?thesis
        by (simp add: occurrences_Cons2)
    next
      case False
      with 1 have "0 < occurrences (b # rest) p" by simp
      with False show ?thesis by (simp add: occurrences_Cons2)
    qed
  qed simp_all
next
  assume "0 < occurrences ts p"
  then show "0 < merge_count p ts" by (rule occurrences_positive)
qed

lemma occurrences_Cons:
  "occurrences (b # rest) q =
     (case rest of [] \<Rightarrow> 0 | r # _ \<Rightarrow> of_bool (q = Pair_of b r) + occurrences rest q)"
  by (cases rest) (simp_all add: occurrences_Cons2 split del: split_of_bool)

lemma occurrences_snoc:
  "occurrences (nt @ [n]) q =
     (if nt \<noteq> [] then occurrences nt q + of_bool (q = Pair_of (last nt) n) else 0)"
  using occurrences_append[of nt "[n]" q] by (simp split del: split_of_bool)

lemma occurrences_before:
  "occurrences (nt @ a # b # rest) q =
     (if nt \<noteq> [] then occurrences nt q + of_bool (q = Pair_of (last nt) a) else 0)
     + of_bool (q = Pair_of a b)
     + (case rest of [] \<Rightarrow> 0 | r # _ \<Rightarrow> of_bool (q = Pair_of b r) + occurrences rest q)"
  using occurrences_append[of nt "a # b # rest" q] occurrences_Cons[of b rest q]
  by (simp add: occurrences_Cons2 split del: split_of_bool)

lemma occurrences_after:
  "occurrences ((nt @ [n]) @ rest) q =
     (if nt \<noteq> [] then occurrences nt q + of_bool (q = Pair_of (last nt) n) else 0)
     + (case rest of [] \<Rightarrow> 0 | r # _ \<Rightarrow> of_bool (q = Pair_of n r) + occurrences rest q)"
proof (cases rest)
  case Nil
  then show ?thesis by (simp add: occurrences_snoc split del: split_of_bool)
next
  case (Cons r rest')
  with occurrences_append[of "nt @ [n]" rest q] show ?thesis
    by (simp add: occurrences_snoc split del: split_of_bool)
qed

lemma account_get:
  "counter_get (account_for_substitution fr lt the_pair rt n) q =
     counter_get fr q
     + (case lt of
          None \<Rightarrow> 0
        | Some l \<Rightarrow> if l \<noteq> 0
                    then of_bool (q = Pair_of l n) - of_bool (q = Pair_of l (left the_pair))
                    else 0)
     + (case rt of
          None \<Rightarrow> 0
        | Some r \<Rightarrow> if r \<noteq> 0
                    then of_bool (q = Pair_of n r) - of_bool (q = Pair_of (right the_pair) r)
                    else 0)
     - of_bool (q = the_pair)"
  by (simp add: account_for_substitution_def counter_get_add split: option.splits
        split del: split_of_bool)

lemma cogp_nonzero:
  assumes "keys_ok tm" and "zero_is_leaf tm" and "create_or_get_pair tm p = (n, tm')"
  shows "n \<noteq> 0 \<and> zero_is_leaf tm'"
proof -
  from assms(2) have mem: "(0, Leaf 0) \<in> set tm" by (simp add: zero_is_leaf_def)
  then have ne: "tm \<noteq> []" by auto
  from cogp_cases[OF assms(1,3)] show ?thesis
  proof
    assume old: "tm' = tm \<and> (n, Node p) \<in> set tm"
    have "n \<noteq> 0"
    proof
      assume "n = 0"
      with old have "map_of tm 0 = Some (Node p)" by (simp add: keys_ok_map_of[OF assms(1)])
      moreover from mem have "map_of tm 0 = Some (Leaf 0)"
        by (simp add: keys_ok_map_of[OF assms(1)])
      ultimately show False by simp
    qed
    with old assms(2) show ?thesis by simp
  next
    assume "tm' = tm @ [(int (length tm), Node p)] \<and> n = int (length tm) \<and>
          (\<forall>k. (k, Node p) \<notin> set tm)"
    with ne mem show ?thesis by (simp add: zero_is_leaf_def)
  qed
qed

lemma account_exact:
  assumes "\<forall>q. counter_get fr q = occurrences (nt @ a # b # rest) q"
    and "0 \<notin> set nt" and "0 \<notin> set rest"
  shows "counter_get
           (account_for_substitution fr (if nt \<noteq> [] then Some (last nt) else None)
              (Pair_of a b) (case rest of [] \<Rightarrow> None | r # _ \<Rightarrow> Some r) n) q =
         occurrences ((nt @ [n]) @ rest) q"
proof -
  have l: "nt \<noteq> [] \<Longrightarrow> last nt \<noteq> 0" using assms(2) by (metis last_in_set)
  have r: "\<And>r rest'. rest = r # rest' \<Longrightarrow> r \<noteq> 0" using assms(3) by auto
  from assms(1) have fr: "counter_get fr q = occurrences (nt @ a # b # rest) q" by simp
  show ?thesis
    unfolding account_get fr occurrences_before occurrences_after
    using l r by (simp split: list.splits split del: split_of_bool)
qed

lemma counter_add_distinct:
  "distinct (map fst fr) \<Longrightarrow> distinct (map fst (counter_add fr p d))"
  by (simp add: counter_add_def distinct_update)

lemma counter_add_nonempty: "counter_add fr p d \<noteq> []"
  by (simp add: counter_add_def update_nonempty)

lemma account_distinct:
  "distinct (map fst fr) \<Longrightarrow> distinct (map fst (account_for_substitution fr lt p rt n))"
  by (simp add: account_for_substitution_def Let_def counter_add_distinct split: option.splits)

lemma account_nonempty: "account_for_substitution fr lt p rt n \<noteq> []"
  by (simp add: account_for_substitution_def Let_def counter_add_nonempty)

lemma Counter_of_distinct: "distinct (map fst (Counter_of ps))"
proof -
  have "distinct (map fst fr0) \<Longrightarrow>
        distinct (map fst (foldl (\<lambda>fr p. counter_add fr p 1) fr0 ps))" for fr0
    by (induction ps arbitrary: fr0) (simp_all add: counter_add_distinct)
  from this[of "[]"] show ?thesis by (simp add: Counter_of_def)
qed

lemma Counter_of_nonempty: "ps \<noteq> [] \<Longrightarrow> Counter_of ps \<noteq> []"
proof -
  have "fr0 \<noteq> [] \<Longrightarrow> foldl (\<lambda>fr p. counter_add fr p 1) fr0 qs \<noteq> []" for fr0 qs
    by (induction qs arbitrary: fr0) (simp_all add: counter_add_nonempty)
  then show "ps \<noteq> [] \<Longrightarrow> Counter_of ps \<noteq> []"
    by (cases ps) (simp_all add: Counter_of_def counter_add_nonempty)
qed

lemma rewrite_frequencies:
  "keys_ok tm \<Longrightarrow> zero_is_leaf tm \<Longrightarrow> 0 \<notin> set nt \<Longrightarrow> 0 \<notin> set ts
     \<Longrightarrow> distinct (map fst fr)
     \<Longrightarrow> \<forall>q. counter_get fr q = occurrences (nt @ ts) q
     \<Longrightarrow> rewrite p ts nt fr tm = (nt', fr', tm')
     \<Longrightarrow> keys_ok tm' \<and> zero_is_leaf tm' \<and> 0 \<notin> set nt' \<and> distinct (map fst fr') \<and>
         (fr \<noteq> [] \<longrightarrow> fr' \<noteq> []) \<and>
         (\<forall>q. counter_get fr' q = occurrences nt' q)"
proof (induction p ts nt fr tm rule: rewrite.induct)
  case (1 p nt fr tm)
  then show ?case by simp
next
  case (2 p a nt fr tm)
  then show ?case by auto
next
  case (3 p a b rest nt fr tm)
  show ?case
  proof (cases "Pair_of a b = p")
    case False
    from "3.prems" have "0 \<notin> set (nt @ [a])" and "0 \<notin> set (b # rest)"
      and "\<forall>q. counter_get fr q = occurrences ((nt @ [a]) @ b # rest) q"
      by simp_all
    from "3.IH"(1)[OF _ "3.prems"(1,2) this(1,2) "3.prems"(5) this(3)] False "3.prems"(7)
    show ?thesis by simp
  next
    case True
    obtain n tm1 where c: "create_or_get_pair tm (Pair_of a b) = (n, tm1)"
      by (cases "create_or_get_pair tm (Pair_of a b)")
    let ?fr = "account_for_substitution fr (if nt \<noteq> [] then Some (last nt) else None)
                 (Pair_of a b) (case rest of [] \<Rightarrow> None | r # _ \<Rightarrow> Some r) n"
    have k1: "keys_ok tm1" by (rule cogp_keys_ok[OF "3.prems"(1) c])
    from cogp_nonzero[OF "3.prems"(1,2) c] have n0: "n \<noteq> 0" and z1: "zero_is_leaf tm1"
      by simp_all
    from "3.prems"(3,4) n0 have nt1: "0 \<notin> set (nt @ [n])" and r1: "0 \<notin> set rest"
      by auto
    have d1: "distinct (map fst ?fr)" by (rule account_distinct[OF "3.prems"(5)])
    have e1: "\<forall>q. counter_get ?fr q = occurrences ((nt @ [n]) @ rest) q"
      using account_exact[OF "3.prems"(6), of n] "3.prems"(3) r1 by blast
    have r: "rewrite p rest (nt @ [n]) ?fr tm1 = (nt', fr', tm')"
      using "3.prems"(7) True c by simp
    from "3.IH"(2)[OF _ c[symmetric] k1 z1 nt1 r1 d1 e1 r] True account_nonempty[of fr]
    show ?thesis by simp
  qed
qed

lemma step_consistent:
  assumes "consistent s" and "step s = Inr s'"
  shows "consistent s' \<and> (frequencies s \<noteq> [] \<longrightarrow> frequencies s' \<noteq> [])"
proof -
  from step_Inr[OF assms(2)] show ?thesis
  proof
    assume "s' = s" with assms show ?thesis by simp
  next
    assume "\<exists>p c. most_used (frequencies s) = Inr (p, c) \<and> c \<noteq> 1 \<and>
            rewrite p (tokens s) [] (frequencies s) (token_map s) =
              (tokens s', frequencies s', token_map s')"
    then obtain p where r: "rewrite p (tokens s) [] (frequencies s) (token_map s) =
              (tokens s', frequencies s', token_map s')" by blast
    from assms(1) have "keys_ok (token_map s)" "zero_is_leaf (token_map s)"
      "0 \<notin> set []" "0 \<notin> set (tokens s)" "distinct (map fst (frequencies s))"
      "\<forall>q. counter_get (frequencies s) q = occurrences ([] @ tokens s) q"
      by (simp_all add: consistent_def)
    from rewrite_frequencies[OF this r] show ?thesis by (simp add: consistent_def)
  qed
qed

lemma steps_consistent:
  "consistent s0 \<Longrightarrow> steps n s0 = Inr s \<Longrightarrow> consistent s"
proof (induction n arbitrary: s0)
  case 0
  then show ?case by simp
next
  case (Suc n)
  from Suc.prems(2) obtain s1 where s1: "step s0 = Inr s1" and rest: "steps n s1 = Inr s"
    by (auto split: sum.splits)
  from step_consistent[OF Suc.prems(1) s1] Suc.IH[OF _ rest] show ?case by simp
qed

lemma pairwise_list_map: "pairwise_list (map f xs) = map (\<lambda>(l, r). (f l, f r)) (pairwise_list xs)"
  by (cases xs) (simp_all add: pairwise_list_def zip_map_map[symmetric] map_tl)

lemma from_text_recount: "frequencies (from_text txt) = recount (tokens (from_text txt))"
  by (simp add: from_text_def recount_def pairwise_list_map comp_def case_prod_unfold)

lemma from_text_consistent:
  assumes "0 \<notin> set txt"
  shows "consistent (from_text txt)"
proof -
  have "zero_is_leaf (token_map (from_text txt))"
    by (simp add: zero_is_leaf_def from_text_token_map image_iff)
  moreover have "0 \<notin> set (tokens (from_text txt))"
    using assms by (auto simp: from_text_tokens py_ord_def)
  moreover have "distinct (map fst (frequencies (from_text txt)))"
    by (simp add: from_text_frequencies Counter_of_distinct)
  moreover have "\<forall>q. counter_get (frequencies (from_text txt)) q =
                     occurrences (tokens (from_text txt)) q"
    by (simp add: from_text_recount counter_get_recount)
  ultimately show ?thesis using from_text_keys_ok by (simp add: consistent_def)
qed

lemma frequencies_exact_without_nul:
  assumes "0 \<notin> set txt" and "steps n (from_text txt) = Inr s"
  shows "counter_get (frequencies s) q = counter_get (recount (tokens s)) q"
  using steps_consistent[OF from_text_consistent[OF assms(1)] assms(2)]
  by (simp add: consistent_def counter_get_recount)

section \<open>Termination of the training loop when no token is 0\<close>

lemma max_entry_mem: "max_entry best fr \<in> set (best # fr)"
  by (induction best fr rule: max_entry.induct) auto

lemma most_used_mem:
  assumes "most_used fr = Inr (p, c)"
  shows "(p, c) \<in> set fr"
proof (cases fr)
  case Nil
  with assms show ?thesis by (simp add: most_used_def)
next
  case (Cons x xs)
  with assms have "max_entry x xs = (p, c)" by (simp add: most_used_def)
  with max_entry_mem[of x xs] Cons show ?thesis by simp
qed

lemma most_used_nonempty: "fr \<noteq> [] \<Longrightarrow> \<exists>p c. most_used fr = Inr (p, c)"
  by (cases fr) (auto simp: most_used_def intro: prod.exhaust)

lemma train_terminates:
  "consistent s \<Longrightarrow> frequencies s \<noteq> []
     \<Longrightarrow> \<exists>n s'. n \<le> length (tokens s) \<and> steps n s = Inr s' \<and> train s = Some (Inr s')"
proof (induction "length (tokens s)" arbitrary: s rule: less_induct)
  case less
  from most_used_nonempty[OF less.prems(2)] obtain p c
    where m: "most_used (frequencies s) = Inr (p, c)" by blast
  show ?case
  proof (cases "1 < c")
    case False
    with m have "train s = Some (Inr s)" by (subst train.simps) simp
    moreover have "steps 0 s = Inr s" by simp
    ultimately show ?thesis by blast
  next
    case True
    from less.prems(1) have d: "distinct (map fst (frequencies s))"
      and e: "counter_get (frequencies s) p = occurrences (tokens s) p"
      by (simp_all add: consistent_def)
    from most_used_mem[OF m] d have "map_of (frequencies s) p = Some c" by simp
    then have "counter_get (frequencies s) p = c" by (simp add: counter_get_def)
    with e True have "0 < occurrences (tokens s) p" by simp
    then have mc: "0 < merge_count p (tokens s)" by (rule occurrences_positive)
    obtain a b t where r: "rewrite p (tokens s) [] (frequencies s) (token_map s) = (a, b, t)"
      by (cases "rewrite p (tokens s) [] (frequencies s) (token_map s)")
    let ?s1 = "\<lparr>tokens = a, frequencies = b, token_map = t\<rparr>"
    from m True r have st: "step s = Inr ?s1"
      by (simp add: step_def step_loop_rewrite)
    from rewrite_length[OF r] mc have shorter: "length (tokens ?s1) < length (tokens s)"
      by simp
    from step_consistent[OF less.prems(1) st] less.prems(2)
    have c1: "consistent ?s1" and ne1: "frequencies ?s1 \<noteq> []" by simp_all
    from less.hyps[OF shorter c1 ne1] obtain n s'
      where n: "n \<le> length (tokens ?s1)" and run: "steps n ?s1 = Inr s'"
        and tr: "train ?s1 = Some (Inr s')" by blast
    have "train s = train ?s1"
      using m True st by (subst train.simps) simp
    with tr have "train s = Some (Inr s')" by simp
    moreover from run st have "steps (Suc n) s = Inr s'" by simp
    moreover from n shorter have "Suc n \<le> length (tokens s)" by simp
    ultimately show ?thesis by blast
  qed
qed

lemma train_terminates_without_nul:
  assumes "0 \<notin> set txt" and "2 \<le> length txt"
  shows "\<exists>n s'. n \<le> length txt \<and> steps n (from_text txt) = Inr s' \<and>
                train (from_text txt) = Some (Inr s')"
proof -
  from assms(2) obtain x y rest where "txt = x # y # rest"
    by (cases "txt"; cases "tl txt") auto
  then have "pairwise_list txt \<noteq> []" by (simp add: pairwise_list_def)
  then have "frequencies (from_text txt) \<noteq> []"
    by (simp add: from_text_frequencies Counter_of_nonempty)
  from train_terminates[OF from_text_consistent[OF assms(1)] this] show ?thesis
    by (simp add: from_text_tokens)
qed

section \<open>Concrete runs\<close>

lemmas eval_simps = step_def step_loop_rewrite from_text_tokens from_text_frequencies
  cogp_from_text cogp_from_text_again most_used_def Counter_of_def pairwise_list_def
  counter_add_def counter_get_def account_for_substitution_def py_ord_def

lemma step_aaa:
  "step (from_text [97, 97, 97]) =
     Inr \<lparr> tokens = [256, 97],
           frequencies = [(Pair_of 97 97, 0), (Pair_of 256 97, 1)],
           token_map = token_map (from_text [97, 97, 97]) @ [(256, Node (Pair_of 97 97))] \<rparr>"
  by (simp add: eval_simps)

lemma steps_aaa:
  "steps (Suc 0) (from_text [97, 97, 97]) =
     Inr \<lparr> tokens = [256, 97],
           frequencies = [(Pair_of 97 97, 0), (Pair_of 256 97, 1)],
           token_map = token_map (from_text [97, 97, 97]) @ [(256, Node (Pair_of 97 97))] \<rparr>"
  by (simp add: step_aaa)

lemma below_256_aaa: "\<forall>c \<in> set [97, 97, 97 :: nat]. c < 256"
  by simp

lemma step_after_aaa:
  "step \<lparr> tokens = [256, 97],
           frequencies = [(Pair_of 97 97, 0), (Pair_of 256 97, 1)],
           token_map = tm \<rparr> =
   Inr \<lparr> tokens = [256, 97],
           frequencies = [(Pair_of 97 97, 0), (Pair_of 256 97, 1)],
           token_map = tm \<rparr>"
  by (simp add: step_def most_used_def)

lemma step_nul:
  "step (from_text [97, 97, 0, 97, 97]) =
     Inr \<lparr> tokens = [256, 0, 256],
           frequencies = [(Pair_of 97 97, 0), (Pair_of 97 0, 1), (Pair_of 0 97, 1)],
           token_map = token_map (from_text [97, 97, 0, 97, 97]) @ [(256, Node (Pair_of 97 97))] \<rparr>"
  by (simp add: eval_simps)



lemma step_256:
  "step (from_text [256, 256, 256]) =
     Inr \<lparr> tokens = [256, 256],
           frequencies = [(Pair_of 256 256, 1)],
           token_map = token_map (from_text [256, 256, 256]) @ [(256, Node (Pair_of 256 256))] \<rparr>"
  by (simp add: eval_simps)

section \<open>The claims\<close>

text \<open>
  C1. Claim: in every state reached from \<open>from_text T\<close> by steps, the frequency table
  recomputed from the token sequence has the same positive counts as the incrementally
  maintained table. The code does not do this when a merge has the token 0 (the NUL
  character) as a neighbour: for the text of the five characters a, a, NUL, a, a (code
  points 97, 97, 0, 97, 97) one step gives the tokens
  \<open>[256, 0, 256]\<close>, whose recomputed table counts \<open>(256, 0)\<close> and \<open>(0, 256)\<close> once each,
  while the maintained table still counts \<open>(97, 0)\<close> and \<open>(0, 97)\<close> once each and has
  no entry for \<open>(256, 0)\<close>.
\<close>

theorem incremental_table_differs_from_recount:
  "steps (Suc 0) (from_text [97, 97, 0, 97, 97]) =
     Inr \<lparr> tokens = [256, 0, 256],
           frequencies = [(Pair_of 97 97, 0), (Pair_of 97 0, 1), (Pair_of 0 97, 1)],
           token_map = token_map (from_text [97, 97, 0, 97, 97]) @ [(256, Node (Pair_of 97 97))] \<rparr> \<and>
   recount [256, 0, 256] = [(Pair_of 256 0, 1), (Pair_of 0 256, 1)] \<and>
   counter_get [(Pair_of 97 97, 0), (Pair_of 97 0, 1), (Pair_of 0 97, 1)] (Pair_of 97 0) = 1 \<and>
   counter_get (recount [256, 0, 256]) (Pair_of 97 0) = 0 \<and>
   counter_get [(Pair_of 97 97, 0), (Pair_of 97 0, 1), (Pair_of 0 97, 1)] (Pair_of 256 0) = 0 \<and>
   counter_get (recount [256, 0, 256]) (Pair_of 256 0) = 1"
  by (simp add: step_nul recount_def Counter_of_def pairwise_list_def counter_add_def counter_get_def)

text \<open>
  C2. Claim: \<open>to_text\<close> gives back the text \<open>T\<close> in every state reached from
  \<open>from_text T\<close>, for every text. This fails for a text with a code point of 256 or
  more, which has no entry in the token map: decoding the one-character text with code
  point 8364 raises \<open>KeyError\<close>.
\<close>

theorem round_trip_fails_above_255:
  "to_text (from_text [8364]) = Some (Inl KeyError) \<and>
   to_text (from_text [8364]) \<noteq> Some (Inr [8364])"
  by (simp add: to_text_def from_text_tokens expand_token_def expand_loop.simps from_text_lookup)

text \<open>
  C2, amended: for every text whose code points are all below 256 and every state reached
  from \<open>from_text\<close> of it by any number of steps, \<open>to_text\<close> returns exactly that text.
\<close>

theorem lossless_round_trip:
  assumes "\<forall>c \<in> set txt. c < 256" and "steps n (from_text txt) = Inr s"
  shows "to_text s = Some (Inr txt)"
proof -
  from steps_decodes[OF from_text_wf from_text_decodes[OF assms(1)] assms(2)]
  have "decodes (token_map s) (tokens s) txt" by simp
  then show ?thesis by (rule decodes_to_text)
qed

theorem lossless_round_trip_witness:
  "(97 :: nat) < 256 \<and>
   steps (Suc 0) (from_text [97, 97, 97]) =
     Inr \<lparr> tokens = [256, 97],
           frequencies = [(Pair_of 97 97, 0), (Pair_of 256 97, 1)],
           token_map = token_map (from_text [97, 97, 97]) @ [(256, Node (Pair_of 97 97))] \<rparr> \<and>
   to_text \<lparr> tokens = [256, 97],
           frequencies = [(Pair_of 97 97, 0), (Pair_of 256 97, 1)],
           token_map = token_map (from_text [97, 97, 97]) @ [(256, Node (Pair_of 97 97))] \<rparr> =
     Some (Inr [97, 97, 97])"
  using lossless_round_trip[OF below_256_aaa steps_aaa] steps_aaa
  by (simp del: steps.simps)

text \<open>
  C3. Claim: at every merge the boundary pairs of an existing left or right neighbour are
  updated, whatever the neighbour's id is. In the code a neighbour with id 0 is treated
  like a missing neighbour: \<open>account_for_substitution\<close> with both neighbours equal to 0
  only decrements the replaced pair, and one step on the text a, b, NUL, a, b (code points
  97, 98, 0, 97, 98) leaves the counts of \<open>(98, 0)\<close> and \<open>(0, 97)\<close> at 1 and creates no
  entry for \<open>(256, 0)\<close> or \<open>(0, 256)\<close>.
\<close>

theorem zero_neighbour_is_skipped:
  "account_for_substitution fr (Some 0) the_pair (Some 0) new_token =
     counter_add fr the_pair (- 1) \<and>
   step (from_text [97, 98, 0, 97, 98]) =
     Inr \<lparr> tokens = [256, 0, 256],
           frequencies = [(Pair_of 97 98, 0), (Pair_of 98 0, 1), (Pair_of 0 97, 1)],
           token_map = token_map (from_text [97, 98, 0, 97, 98]) @ [(256, Node (Pair_of 97 98))] \<rparr>"
  by (simp add: eval_simps)

text \<open>
  C4. Claim: \<open>step\<close> returns its input state when the greatest count is at most 1 and also
  when the frequency table is empty. In the code \<open>step\<close> raises \<open>IndexError\<close> on the
  empty table, which is the table of the empty text and of a one-character text; and it
  returns early only for a count equal to 1, so a state whose greatest count is 0 is
  rewritten when its pair occurs in the token sequence.
\<close>

theorem step_raises_on_empty_table:
  "frequencies (from_text []) = [] \<and> step (from_text []) = Inl IndexError \<and>
   frequencies (from_text [97]) = [] \<and> step (from_text [97]) = Inl IndexError \<and>
   most_used [(Pair_of 97 97, 0)] = Inr (Pair_of 97 97, 0) \<and>
   step \<lparr> tokens = [97, 97], frequencies = [(Pair_of 97 97, 0)],
          token_map = token_map (from_text []) \<rparr> =
     Inr \<lparr> tokens = [256], frequencies = [(Pair_of 97 97, - 1)],
           token_map = token_map (from_text []) @ [(256, Node (Pair_of 97 97))] \<rparr>"
  by (simp add: eval_simps)

text \<open>
  C5. One step on \<open>from_text "aaa"\<close> gives the tokens \<open>[256, ord('a')]\<close>, the count 1 for
  \<open>Pair(256, ord('a'))\<close>, the count 0 for \<open>Pair(ord('a'), ord('a'))\<close>, and the token map
  of the initial state extended by the single entry \<open>256 -> Pair(ord('a'), ord('a'))\<close>.
\<close>

theorem first_merge_of_aaa:
  "step (from_text [97, 97, 97]) =
     Inr \<lparr> tokens = [256, py_ord 97],
           frequencies = [(Pair_of (py_ord 97) (py_ord 97), 0), (Pair_of 256 (py_ord 97), 1)],
           token_map = token_map (from_text [97, 97, 97]) @
                         [(256, Node (Pair_of (py_ord 97) (py_ord 97)))] \<rparr> \<and>
   counter_get [(Pair_of (py_ord 97) (py_ord 97), 0), (Pair_of 256 (py_ord 97), 1)]
     (Pair_of 256 (py_ord 97)) = 1 \<and>
   counter_get [(Pair_of (py_ord 97) (py_ord 97), 0), (Pair_of 256 (py_ord 97), 1)]
     (Pair_of (py_ord 97) (py_ord 97)) = 0"
  using step_aaa by (simp add: py_ord_def counter_get_def)

text \<open>
  C6. In every state reached from \<open>from_text T\<close> by steps, no two ids of the token map are
  mapped to the same pair; \<open>create_or_get_pair\<close> called with a pair that has an id returns
  that id and the unchanged map; and a further step leaves the map as it is or appends
  one entry to it.
\<close>

theorem merge_table_injective:
  assumes "steps n (from_text txt) = Inr s"
  shows "(\<forall>k k' p. map_of (token_map s) k = Some (Node p) \<and>
                    map_of (token_map s) k' = Some (Node p) \<longrightarrow> k = k') \<and>
         (\<forall>k p. map_of (token_map s) k = Some (Node p) \<longrightarrow>
                 create_or_get_pair (token_map s) p = (k, token_map s)) \<and>
         (\<forall>s'. step s = Inr s' \<longrightarrow>
                 token_map s' = token_map s \<or>
                 (\<exists>p. token_map s' = token_map s @ [(int (length (token_map s)), Node p)]))"
proof -
  from steps_keys_inj[OF from_text_keys_ok from_text_pair_injective assms]
  have k: "keys_ok (token_map s)" and i: "pair_injective (token_map s)" by simp_all
  from i have "\<forall>k k' p. map_of (token_map s) k = Some (Node p) \<and>
                    map_of (token_map s) k' = Some (Node p) \<longrightarrow> k = k'"
    by (simp add: pair_injective_def)
  moreover have "\<forall>k p. map_of (token_map s) k = Some (Node p) \<longrightarrow>
                 create_or_get_pair (token_map s) p = (k, token_map s)"
    using cogp_existing[OF k i] by blast
  moreover have "\<forall>s'. step s = Inr s' \<longrightarrow>
                 token_map s' = token_map s \<or>
                 (\<exists>p. token_map s' = token_map s @ [(int (length (token_map s)), Node p)])"
    using step_token_map[OF k] by blast
  ultimately show ?thesis by blast
qed

theorem merge_table_injective_witness:
  "steps (Suc 0) (from_text [97, 97, 97]) =
     Inr \<lparr> tokens = [256, 97],
           frequencies = [(Pair_of 97 97, 0), (Pair_of 256 97, 1)],
           token_map = token_map (from_text [97, 97, 97]) @ [(256, Node (Pair_of 97 97))] \<rparr> \<and>
   map_of (token_map (from_text [97, 97, 97]) @ [(256, Node (Pair_of 97 97))]) 256 =
     Some (Node (Pair_of 97 97)) \<and>
   create_or_get_pair (token_map (from_text [97, 97, 97]) @ [(256, Node (Pair_of 97 97))])
     (Pair_of 97 97) =
     (256, token_map (from_text [97, 97, 97]) @ [(256, Node (Pair_of 97 97))]) \<and>
   step \<lparr> tokens = [256, 97],
          frequencies = [(Pair_of 97 97, 0), (Pair_of 256 97, 1)],
          token_map = token_map (from_text [97, 97, 97]) @ [(256, Node (Pair_of 97 97))] \<rparr> =
     Inr \<lparr> tokens = [256, 97],
           frequencies = [(Pair_of 97 97, 0), (Pair_of 256 97, 1)],
           token_map = token_map (from_text [97, 97, 97]) @ [(256, Node (Pair_of 97 97))] \<rparr>"
proof -
  let ?s = "\<lparr> tokens = [256, 97],
           frequencies = [(Pair_of 97 97, 0), (Pair_of 256 97, 1)],
           token_map = token_map (from_text [97, 97, 97]) @ [(256, Node (Pair_of 97 97))] \<rparr>"
  have look: "map_of (token_map ?s) 256 = Some (Node (Pair_of 97 97))"
    by (simp add: appended_lookup del: map_of_append)
  from merge_table_injective[OF steps_aaa]
  have "\<forall>k p. map_of (token_map ?s) k = Some (Node p) \<longrightarrow>
                 create_or_get_pair (token_map ?s) p = (k, token_map ?s)"
    by blast
  with look have "create_or_get_pair (token_map ?s) (Pair_of 97 97) = (256, token_map ?s)"
    by blast
  with look steps_aaa step_after_aaa show ?thesis by (simp del: map_of_append steps.simps)
qed

text \<open>
  C7. Claim: in every reachable state each synthesized id is greater than both ids of its
  pair, so expanding a token terminates. This fails for a text with a code point of 256
  or more: one step on the text of three characters with code point 256 maps the id 256
  to the pair \<open>(256, 256)\<close>, and the loop that expands the token 256 never ends (its
  stack grows at every iteration).
\<close>

theorem ids_not_increasing_above_255:
  "steps (Suc 0) (from_text [256, 256, 256]) =
     Inr \<lparr> tokens = [256, 256],
           frequencies = [(Pair_of 256 256, 1)],
           token_map = token_map (from_text [256, 256, 256]) @ [(256, Node (Pair_of 256 256))] \<rparr> \<and>
   map_of (token_map (from_text [256, 256, 256]) @ [(256, Node (Pair_of 256 256))]) 256 =
     Some (Node (Pair_of 256 256)) \<and>
   \<not> left (Pair_of 256 256) < 256 \<and>
   expand_token
     \<lparr> tokens = [256, 256],
       frequencies = [(Pair_of 256 256, 1)],
       token_map = token_map (from_text [256, 256, 256]) @ [(256, Node (Pair_of 256 256))] \<rparr>
     256 = None"
proof -
  have "expand_token
     \<lparr> tokens = [256, 256],
       frequencies = [(Pair_of 256 256, 1)],
       token_map = token_map (from_text [256, 256, 256]) @ [(256, Node (Pair_of 256 256))] \<rparr>
     256 = None"
    unfolding expand_token_def
    by (rule expand_loop_self_cycle[where p="Pair_of 256 256"]) (simp_all add: appended_lookup del: map_of_append)
  then show ?thesis
    by (simp add: step_256 appended_lookup del: map_of_append)
qed

text \<open>
  C7, amended: for every text whose code points are all below 256, in every state reached
  from \<open>from_text\<close> of it by steps, each id that is mapped to a pair is strictly greater
  than both ids of the pair, and expanding any token of the sequence, and any id of the
  token map, terminates and returns characters.
\<close>

theorem ids_increase_and_expansion_terminates:
  assumes "\<forall>c \<in> set txt. c < 256" and "steps n (from_text txt) = Inr s"
  shows "(\<forall>k p. map_of (token_map s) k = Some (Node p) \<longrightarrow> left p < k \<and> right p < k) \<and>
         (\<forall>t \<in> set (tokens s). \<exists>cs. expand_token s t = Some (Inr cs)) \<and>
         (\<forall>k. map_of (token_map s) k \<noteq> None \<longrightarrow> (\<exists>cs. expand_token s k = Some (Inr cs)))"
proof -
  from steps_decodes[OF from_text_wf from_text_decodes[OF assms(1)] assms(2)]
  have wf: "wf_map (token_map s)" and d: "decodes (token_map s) (tokens s) txt" by simp_all
  from wf have k: "keys_ok (token_map s)" by (simp add: wf_map_def)
  have inc: "\<forall>k p. map_of (token_map s) k = Some (Node p) \<longrightarrow> left p < k \<and> right p < k"
  proof (intro allI impI)
    fix k p assume "map_of (token_map s) k = Some (Node p)"
    then have "(k, Node p) \<in> set (token_map s)" by (simp add: keys_ok_map_of[OF k])
    with wf show "left p < k \<and> right p < k" by (auto simp: wf_map_def)
  qed
  have keys: "\<forall>k. map_of (token_map s) k \<noteq> None \<longrightarrow> (\<exists>cs. expand_token s k = Some (Inr cs))"
  proof (intro allI impI)
    fix k assume "map_of (token_map s) k \<noteq> None"
    with keys_ok_dom[OF k, of k] have "0 \<le> k" and "k < int (length (token_map s))"
      by simp_all
    from wf_map_expands[OF wf this] obtain cs where "expands (token_map s) k cs" by blast
    from expands_token[OF this] show "\<exists>cs. expand_token s k = Some (Inr cs)" by blast
  qed
  have toks: "\<forall>t \<in> set (tokens s). \<exists>cs. expand_token s t = Some (Inr cs)"
  proof
    fix t assume "t \<in> set (tokens s)"
    then obtain xs ys where "tokens s = xs @ t # ys" by (auto simp: in_set_conv_decomp)
    with d have "decodes (token_map s) (xs @ t # ys) txt" by simp
    from decodes_appendD[OF this] obtain b where "decodes (token_map s) (t # ys) b" by blast
    then obtain cs where "expands (token_map s) t cs" by (auto elim: decodes_ConsE)
    from expands_token[OF this] show "\<exists>cs. expand_token s t = Some (Inr cs)" by blast
  qed
  from inc toks keys show ?thesis by blast
qed

theorem ids_increase_and_expansion_terminates_witness:
  "(97 :: nat) < 256 \<and>
   steps (Suc 0) (from_text [97, 97, 97]) =
     Inr \<lparr> tokens = [256, 97],
           frequencies = [(Pair_of 97 97, 0), (Pair_of 256 97, 1)],
           token_map = token_map (from_text [97, 97, 97]) @ [(256, Node (Pair_of 97 97))] \<rparr> \<and>
   map_of (token_map (from_text [97, 97, 97]) @ [(256, Node (Pair_of 97 97))]) 256 =
     Some (Node (Pair_of 97 97)) \<and>
   left (Pair_of 97 97) < 256 \<and> right (Pair_of 97 97) < 256 \<and>
   (\<exists>cs. expand_token
      \<lparr> tokens = [256, 97],
        frequencies = [(Pair_of 97 97, 0), (Pair_of 256 97, 1)],
        token_map = token_map (from_text [97, 97, 97]) @ [(256, Node (Pair_of 97 97))] \<rparr>
      256 = Some (Inr cs))"
proof -
  let ?s = "\<lparr> tokens = [256, 97],
           frequencies = [(Pair_of 97 97, 0), (Pair_of 256 97, 1)],
           token_map = token_map (from_text [97, 97, 97]) @ [(256, Node (Pair_of 97 97))] \<rparr>"
  have look: "map_of (token_map ?s) 256 = Some (Node (Pair_of 97 97))"
    by (simp add: appended_lookup del: map_of_append)
  have mem: "256 \<in> set (tokens ?s)" by simp
  note concl = ids_increase_and_expansion_terminates[OF below_256_aaa steps_aaa]
  from concl mem have "\<exists>cs. expand_token ?s 256 = Some (Inr cs)" by blast
  with look steps_aaa show ?thesis by (simp del: map_of_append steps.simps)
qed

text \<open>
  C8. Whenever \<open>step\<close> returns a state, its token sequence is not longer than the one of
  the input state, it is strictly shorter when at least one merge occurs in the step, and
  each merge removes exactly one token: the new length plus the number of merges is the
  old length.
\<close>

theorem step_never_lengthens:
  assumes "step s = Inr s'"
  shows "length (tokens s') \<le> length (tokens s) \<and>
         (0 < step_merges s \<longrightarrow> length (tokens s') < length (tokens s)) \<and>
         length (tokens s') + step_merges s = length (tokens s)"
proof -
  have "length (tokens s') + step_merges s = length (tokens s)"
  proof (cases "most_used (frequencies s)")
    case (Inl e)
    with assms show ?thesis by (simp add: step_def)
  next
    case (Inr pc)
    obtain p c where pc: "pc = (p, c)" by (cases pc)
    show ?thesis
    proof (cases "c = 1")
      case True
      with assms Inr pc show ?thesis by (auto simp: step_def step_merges_def)
    next
      case False
      obtain a b d where r: "rewrite p (tokens s) [] (frequencies s) (token_map s) = (a, b, d)"
        by (cases "rewrite p (tokens s) [] (frequencies s) (token_map s)")
      from assms Inr pc False r have "tokens s' = a"
        by (auto simp: step_def step_loop_rewrite)
      with rewrite_length[OF r] Inr pc False show ?thesis
        by (simp add: step_merges_def)
    qed
  qed
  then show ?thesis by arith
qed

theorem step_never_lengthens_witness:
  "step (from_text [97, 97, 97]) =
     Inr \<lparr> tokens = [256, 97],
           frequencies = [(Pair_of 97 97, 0), (Pair_of 256 97, 1)],
           token_map = token_map (from_text [97, 97, 97]) @ [(256, Node (Pair_of 97 97))] \<rparr> \<and>
   0 < step_merges (from_text [97, 97, 97]) \<and>
   length [256, 97 :: int] < length (tokens (from_text [97, 97, 97])) \<and>
   length [256, 97 :: int] + step_merges (from_text [97, 97, 97]) =
     length (tokens (from_text [97, 97, 97]))"
proof -
  have m: "0 < step_merges (from_text [97, 97, 97])"
    by (simp add: step_merges_def eval_simps)
  from step_never_lengthens[OF step_aaa] m step_aaa show ?thesis by simp
qed


text \<open>
  C10. \<open>from_text\<close> does not validate code points: for a text whose code points are all
  below 256 every token has an entry in the token map and \<open>to_text\<close> returns the text;
  and there is a text with a code point of 256 or more for which \<open>from_text\<close> returns a
  state on which \<open>to_text\<close> raises \<open>KeyError\<close>.
\<close>

theorem from_text_does_not_validate:
  "(\<forall>txt. (\<forall>c \<in> set txt. c < 256) \<longrightarrow>
      (\<forall>t \<in> set (tokens (from_text txt)). map_of (token_map (from_text txt)) t \<noteq> None) \<and>
      to_text (from_text txt) = Some (Inr txt)) \<and>
   (\<exists>txt. (\<forall>c \<in> set txt. c < 0x110000) \<and> (\<exists>c \<in> set txt. 256 \<le> c) \<and>
      to_text (from_text txt) = Some (Inl KeyError))"
proof (intro conjI allI impI)
  fix cs :: pystr
  assume b: "\<forall>c \<in> set cs. c < 256"
  then show "\<forall>t \<in> set (tokens (from_text cs)). map_of (token_map (from_text cs)) t \<noteq> None"
    by (auto simp: from_text_tokens from_text_lookup)
  from decodes_to_text[OF from_text_decodes[OF b]]
  show "to_text (from_text cs) = Some (Inr cs)" .
next
  have "to_text (from_text [256]) = Some (Inl KeyError)"
    by (simp add: to_text_def from_text_tokens expand_token_def expand_loop.simps from_text_lookup)
  then show "\<exists>txt. (\<forall>c \<in> set txt. c < 0x110000) \<and> (\<exists>c \<in> set txt. 256 \<le> c) \<and>
      to_text (from_text txt) = Some (Inl KeyError)"
    by (intro exI[of _ "[256]"]) simp
qed

theorem from_text_does_not_validate_witness:
  "(97 :: nat) < 256 \<and> (98 :: nat) < 256 \<and> (99 :: nat) < 256 \<and>
   tokens (from_text [97, 98, 99]) = [97, 98, 99] \<and>
   map_of (token_map (from_text [97, 98, 99])) 97 \<noteq> None \<and>
   map_of (token_map (from_text [97, 98, 99])) 98 \<noteq> None \<and>
   map_of (token_map (from_text [97, 98, 99])) 99 \<noteq> None \<and>
   to_text (from_text [97, 98, 99]) = Some (Inr [97, 98, 99])"
proof -
  have b: "\<forall>c \<in> set [97, 98, 99 :: nat]. c < 256" by simp
  have t: "tokens (from_text [97, 98, 99]) = [97, 98, 99]"
    by (simp add: from_text_tokens py_ord_def)
  from from_text_does_not_validate b
  have "(\<forall>t \<in> set (tokens (from_text [97, 98, 99])).
           map_of (token_map (from_text [97, 98, 99])) t \<noteq> None) \<and>
        to_text (from_text [97, 98, 99]) = Some (Inr [97, 98, 99])"
    by blast
  with t show ?thesis by simp
qed

end
